theory Spec2Isabelle
  imports Main
begin

section \<open>Batch anonymization of lists and dictionaries (batch_processing.ipynb)\<close>

text \<open>
  The notebook defines \<open>BatchAnonymizerEngine\<close>, a subclass of the library's
  \<open>AnonymizerEngine\<close>, with two methods: \<open>anonymize_list\<close> and \<open>anonymize_dict\<close>.
  Both call the inherited single-text method \<open>self.anonymize\<close>, which belongs to the
  library and is not part of the notebook; it is a parameter of the model.
\<close>

subsection \<open>Python values\<close>

text \<open>
  The values that occur in the data: \<open>str\<close>, \<open>bool\<close>, \<open>int\<close>, \<open>float\<close>, \<open>None\<close>,
  \<open>list\<close>, \<open>set\<close> and \<open>dict\<close> (string keys, insertion ordered). A float is a value of
  the type parameter \<open>'f\<close>. A set carries its elements in the order in which iterating the
  set object yields them. A dict is an association list in insertion order.
\<close>

datatype 'f pyval =
    PStr (str_of: string)
  | PBool bool
  | PInt int
  | PFloat 'f
  | PNone
  | PList "'f pyval list"
  | PSet "'f pyval list"
  | PDict "(string \<times> 'f pyval) list"

type_synonym 'f pydict = "(string \<times> 'f pyval) list"

text \<open>\<open>isinstance(v, dict)\<close>, \<open>isinstance(v, str)\<close>\<close>

fun is_dict :: "'f pyval \<Rightarrow> bool" where
  "is_dict (PDict m) = True"
| "is_dict v = False"

fun is_str :: "'f pyval \<Rightarrow> bool" where
  "is_str (PStr s) = True"
| "is_str v = False"

text \<open>
  \<open>isinstance(v, collections.abc.Iterable)\<close>: strings, lists, sets and dicts are
  iterable; booleans, integers, floats and \<open>None\<close> are not.
\<close>

fun is_iterable :: "'f pyval \<Rightarrow> bool" where
  "is_iterable (PStr s) = True"
| "is_iterable (PList xs) = True"
| "is_iterable (PSet xs) = True"
| "is_iterable (PDict m) = True"
| "is_iterable v = False"

text \<open>
  The sequence of values that iterating an iterable yields: the elements of a list or a
  set, the keys of a dict, the characters of a string (each a string of length one).
  On a value that is not iterable the model is not used.
\<close>

fun iter_py :: "'f pyval \<Rightarrow> 'f pyval list" where
  "iter_py (PList xs) = xs"
| "iter_py (PSet xs) = xs"
| "iter_py (PDict m) = map (\<lambda>kv. PStr (fst kv)) m"
| "iter_py (PStr s) = map (\<lambda>c. PStr [c]) s"
| "iter_py v = []"

text \<open>\<open>type(text) in (str, bool, int, float)\<close>\<close>

fun is_leaf_type :: "'f pyval \<Rightarrow> bool" where
  "is_leaf_type (PStr s) = True"
| "is_leaf_type (PBool b) = True"
| "is_leaf_type (PInt i) = True"
| "is_leaf_type (PFloat x) = True"
| "is_leaf_type v = False"

text \<open>
  \<open>str(text)\<close> on the four leaf types. The decimal text of a float is the library's
  business: \<open>fstr\<close> is a parameter.
\<close>

definition digit_char :: "nat \<Rightarrow> char" where
  "digit_char d = ''0123456789'' ! d"

fun str_nat :: "nat \<Rightarrow> string" where
  "str_nat n = (if n < 10 then [digit_char n] else str_nat (n div 10) @ [digit_char (n mod 10)])"

declare str_nat.simps [simp del]

definition str_int :: "int \<Rightarrow> string" where
  "str_int i = (if i < 0 then CHR ''-'' # str_nat (nat (- i)) else str_nat (nat i))"

fun str_py :: "('f \<Rightarrow> string) \<Rightarrow> 'f pyval \<Rightarrow> string" where
  "str_py fstr (PStr s) = s"
| "str_py fstr (PBool b) = (if b then ''True'' else ''False'')"
| "str_py fstr (PInt i) = str_int i"
| "str_py fstr (PFloat x) = fstr x"
| "str_py fstr v = []"

text \<open>The last equation makes the function total; the code calls \<open>str\<close> on leaves only.\<close>

subsection \<open>Analyzer results\<close>

text \<open>
  \<open>RecognizerResult\<close> and \<open>DictAnalyzerResult\<close> are classes of the analyzer library. A
  \<open>RecognizerResult\<close> locates one entity in one text; the notebook never reads its fields.
  A \<open>DictAnalyzerResult\<close> has the fields \<open>key\<close>, \<open>value\<close> and \<open>recognizer_results\<close>, the last
  being a list of \<open>RecognizerResult\<close>, a list of such lists, or an iterable of
  \<open>DictAnalyzerResult\<close>. Python does not check which, so the model has one type of
  analyzer objects and the code's behaviour on each shape. \<open>RList\<close> is a Python list; an
  iterator of \<open>DictAnalyzerResult\<close>, which \<open>anonymize_dict\<close> only iterates, is the list of
  what it yields. The score of a \<open>RecognizerResult\<close> is a float. The selector of the field
  \<open>value\<close> is \<open>val\<close>.
\<close>

record 'f span =
  entity_type :: string
  start :: int
  end_pos :: int
  score :: 'f

datatype 'f robj =
    RecognizerResult "'f span"
  | RList "'f robj list"
  | is_DictAnalyzerResult: DictAnalyzerResult (key: string) (val: "'f pyval")
      (recognizer_results: "'f robj")

datatype error =
    TypeError
  | AttributeError
  | AnonymizerError string

text \<open>
  The inherited \<open>self.anonymize(text=..., analyzer_results=..., **kwargs)\<close> followed by
  \<open>.text\<close>: it returns the anonymized text or raises. The keyword options are fixed for a
  call and are part of the parameter.
\<close>

type_synonym 'f anonymizer = "string \<Rightarrow> 'f robj \<Rightarrow> error + string"

subsection \<open>anonymize\_list\<close>

text \<open>
  The loop \<open>for text, recognizer_results in zip(texts, recognizer_results_list)\<close> with
  the list \<open>return_list\<close> built by \<open>append\<close>; the second loop variable is \<open>results\<close> here,
  since \<open>recognizer_results\<close> is the field selector. An exception of \<open>self.anonymize\<close>
  leaves the loop and the method.
\<close>

fun list_loop ::
  "('f \<Rightarrow> string) \<Rightarrow> 'f anonymizer \<Rightarrow> ('f pyval \<times> 'f robj) list \<Rightarrow> 'f pyval list
    \<Rightarrow> error + 'f pyval list" where
  "list_loop fstr anonymize [] return_list = Inr return_list"
| "list_loop fstr anonymize ((text, results) # rest) return_list =
     (if is_leaf_type text then
        (case anonymize (str_py fstr text) results of
           Inl e \<Rightarrow> Inl e
         | Inr res_text \<Rightarrow> list_loop fstr anonymize rest (return_list @ [PStr res_text]))
      else list_loop fstr anonymize rest (return_list @ [text]))"

text \<open>
  \<open>texts\<close> is the sequence the argument yields. \<open>not recognizer_results_list\<close> holds of the
  empty list only (an object of either library class is truthy); the argument is then
  replaced by one empty list per text.
\<close>

fun is_falsy :: "'f robj \<Rightarrow> bool" where
  "is_falsy (RList []) = True"
| "is_falsy r = False"

definition default_results :: "'f pyval list \<Rightarrow> 'f robj \<Rightarrow> 'f robj" where
  "default_results texts recognizer_results_list =
     (if is_falsy recognizer_results_list
      then RList (replicate (length texts) (RList []))
      else recognizer_results_list)"

text \<open>\<open>zip\<close> needs an iterable second argument and stops at the shorter one.\<close>

definition anonymize_list ::
  "('f \<Rightarrow> string) \<Rightarrow> 'f anonymizer \<Rightarrow> 'f pyval list \<Rightarrow> 'f robj \<Rightarrow> error + 'f pyval list" where
  "anonymize_list fstr anonymize texts recognizer_results_list =
     (case default_results texts recognizer_results_list of
        RList rs \<Rightarrow> list_loop fstr anonymize (zip texts rs) []
      | RecognizerResult sp \<Rightarrow> Inl TypeError
      | DictAnalyzerResult k v rr \<Rightarrow> Inl TypeError)"

subsection \<open>anonymize\_dict\<close>

text \<open>\<open>return_dict[key] = v\<close>: an existing key keeps its place, a new key goes last.\<close>

fun dict_set :: "'f pydict \<Rightarrow> string \<Rightarrow> 'f pyval \<Rightarrow> 'f pydict" where
  "dict_set [] k v = [(k, v)]"
| "dict_set ((k', v') # d) k v = (if k' = k then (k, v) # d else (k', v') # dict_set d k v)"

text \<open>
  \<open>anonymize_dict\<close> iterates \<open>analyzer_results\<close>; \<open>dict_loop\<close> is the loop with
  \<open>return_dict\<close>, and \<open>anonymize_value\<close> is the \<open>if\<close>/\<open>elif\<close> chain of the loop body, which
  computes the value that every branch then stores under \<open>result.key\<close>. An element that is
  not a \<open>DictAnalyzerResult\<close> has no attribute \<open>value\<close>.
\<close>

fun anonymize_dict ::
    "('f \<Rightarrow> string) \<Rightarrow> 'f anonymizer \<Rightarrow> 'f robj \<Rightarrow> error + 'f pydict"
  and dict_loop ::
    "('f \<Rightarrow> string) \<Rightarrow> 'f anonymizer \<Rightarrow> 'f robj list \<Rightarrow> 'f pydict \<Rightarrow> error + 'f pydict"
  and anonymize_value ::
    "('f \<Rightarrow> string) \<Rightarrow> 'f anonymizer \<Rightarrow> 'f pyval \<Rightarrow> 'f robj \<Rightarrow> error + 'f pyval"
where
  "anonymize_dict fstr anonymize (RList results) = dict_loop fstr anonymize results []"
| "anonymize_dict fstr anonymize (RecognizerResult sp) = Inl TypeError"
| "anonymize_dict fstr anonymize (DictAnalyzerResult k v rr) = Inl TypeError"
| "dict_loop fstr anonymize [] return_dict = Inr return_dict"
| "dict_loop fstr anonymize (DictAnalyzerResult k v rr # rest) return_dict =
     (case anonymize_value fstr anonymize v rr of
        Inl e \<Rightarrow> Inl e
      | Inr resp \<Rightarrow> dict_loop fstr anonymize rest (dict_set return_dict k resp))"
| "dict_loop fstr anonymize (RecognizerResult sp # rest) return_dict = Inl AttributeError"
| "dict_loop fstr anonymize (RList rs # rest) return_dict = Inl AttributeError"
| "anonymize_value fstr anonymize v rr =
     (if is_dict v then
        (case anonymize_dict fstr anonymize rr of
           Inl e \<Rightarrow> Inl e
         | Inr resp \<Rightarrow> Inr (PDict resp))
      else if is_str v then
        (case anonymize (str_of v) rr of
           Inl e \<Rightarrow> Inl e
         | Inr resp_text \<Rightarrow> Inr (PStr resp_text))
      else if is_iterable v then
        (case anonymize_list fstr anonymize (iter_py v) rr of
           Inl e \<Rightarrow> Inl e
         | Inr anonymize_respones \<Rightarrow> Inr (PList anonymize_respones))
      else Inr v)"

subsection \<open>The calls of the single-text anonymizer\<close>

text \<open>
  The analyzer library pairs a dict value with an iterable of \<open>DictAnalyzerResult\<close> and a
  list or set value with a list. \<open>shape_ok\<close> holds of the analyzer results that are
  shaped so at every level the traversal reaches.
\<close>

fun is_RList :: "'f robj \<Rightarrow> bool" where
  "is_RList (RList rs) = True"
| "is_RList r = False"

fun shape_ok :: "'f robj \<Rightarrow> bool"
  and shape_ok_nodes :: "'f robj list \<Rightarrow> bool"
  and shape_ok_value :: "'f pyval \<Rightarrow> 'f robj \<Rightarrow> bool"
where
  "shape_ok (RList results) = shape_ok_nodes results"
| "shape_ok (RecognizerResult sp) = False"
| "shape_ok (DictAnalyzerResult k v rr) = False"
| "shape_ok_nodes [] = True"
| "shape_ok_nodes (DictAnalyzerResult k v rr # rest) =
     (shape_ok_value v rr \<and> shape_ok_nodes rest)"
| "shape_ok_nodes (RecognizerResult sp # rest) = False"
| "shape_ok_nodes (RList rs # rest) = False"
| "shape_ok_value v rr =
     (if is_dict v then shape_ok rr
      else if is_str v then True
      else if is_iterable v then is_RList rr
      else True)"

text \<open>
  The calls \<open>(text, analyzer_results)\<close> of the single-text anonymizer that a traversal
  makes, in order, when none of them raises.
\<close>

type_synonym 'f call = "string \<times> 'f robj"

fun loop_calls :: "('f \<Rightarrow> string) \<Rightarrow> ('f pyval \<times> 'f robj) list \<Rightarrow> 'f call list" where
  "loop_calls fstr [] = []"
| "loop_calls fstr ((text, results) # rest) =
     (if is_leaf_type text then (str_py fstr text, results) # loop_calls fstr rest
      else loop_calls fstr rest)"

definition list_calls :: "('f \<Rightarrow> string) \<Rightarrow> 'f pyval list \<Rightarrow> 'f robj \<Rightarrow> 'f call list" where
  "list_calls fstr texts recognizer_results_list =
     (case default_results texts recognizer_results_list of
        RList rs \<Rightarrow> loop_calls fstr (zip texts rs)
      | RecognizerResult sp \<Rightarrow> []
      | DictAnalyzerResult k v rr \<Rightarrow> [])"

fun dict_calls :: "('f \<Rightarrow> string) \<Rightarrow> 'f robj \<Rightarrow> 'f call list"
  and nodes_calls :: "('f \<Rightarrow> string) \<Rightarrow> 'f robj list \<Rightarrow> 'f call list"
  and value_calls :: "('f \<Rightarrow> string) \<Rightarrow> 'f pyval \<Rightarrow> 'f robj \<Rightarrow> 'f call list"
where
  "dict_calls fstr (RList results) = nodes_calls fstr results"
| "dict_calls fstr (RecognizerResult sp) = []"
| "dict_calls fstr (DictAnalyzerResult k v rr) = []"
| "nodes_calls fstr [] = []"
| "nodes_calls fstr (DictAnalyzerResult k v rr # rest) =
     value_calls fstr v rr @ nodes_calls fstr rest"
| "nodes_calls fstr (RecognizerResult sp # rest) = []"
| "nodes_calls fstr (RList rs # rest) = []"
| "value_calls fstr v rr =
     (if is_dict v then dict_calls fstr rr
      else if is_str v then [(str_of v, rr)]
      else if is_iterable v then list_calls fstr (iter_py v) rr
      else [])"

text \<open>The error of the first call that raises, if one does.\<close>

fun first_error :: "'f anonymizer \<Rightarrow> 'f call list \<Rightarrow> error option" where
  "first_error anonymize [] = None"
| "first_error anonymize ((text, rr) # calls) =
     (case anonymize text rr of
        Inl e \<Rightarrow> Some e
      | Inr res_text \<Rightarrow> first_error anonymize calls)"

text \<open>The exception a call ends with, if it does not return.\<close>

fun error_of :: "error + 'a \<Rightarrow> error option" where
  "error_of (Inl e) = Some e"
| "error_of (Inr x) = None"

text \<open>
  What one round of the loop of \<open>anonymize_list\<close> appends for the pair \<open>(t, r)\<close>: the
  anonymized text of \<open>str(t)\<close> for a value of a leaf type, the value itself otherwise.
\<close>

definition item_ok ::
  "('f \<Rightarrow> string) \<Rightarrow> 'f anonymizer \<Rightarrow> 'f pyval \<Rightarrow> 'f robj \<Rightarrow> 'f pyval \<Rightarrow> bool" where
  "item_ok fstr an t r z =
     (if is_leaf_type t then (\<exists>s. an (str_py fstr t) r = Inr s \<and> z = PStr s) else z = t)"

section \<open>Properties\<close>

declare anonymize_value.simps [simp del]
declare shape_ok_value.simps [simp del]
declare value_calls.simps [simp del]

subsection \<open>The calls and the first error\<close>

lemma first_error_append:
  "first_error an (xs @ ys) =
     (case first_error an xs of Some e \<Rightarrow> Some e | None \<Rightarrow> first_error an ys)"
proof (induction xs)
  case Nil
  then show ?case by simp
next
  case (Cons c xs)
  obtain t r where c: "c = (t, r)" by (cases c)
  with Cons show ?case by (simp split: sum.splits)
qed

lemma first_error_Some_mem:
  "first_error an calls = Some e \<Longrightarrow> \<exists>c\<in>set calls. an (fst c) (snd c) = Inl e"
proof (induction calls)
  case Nil
  then show ?case by simp
next
  case (Cons c calls)
  obtain t r where c: "c = (t, r)" by (cases c)
  with Cons show ?case by (auto split: sum.splits)
qed

lemma first_error_None_iff:
  "first_error an calls = None \<longleftrightarrow> (\<forall>c\<in>set calls. \<exists>s. an (fst c) (snd c) = Inr s)"
proof (induction calls)
  case Nil
  then show ?case by simp
next
  case (Cons c calls)
  obtain t r where c: "c = (t, r)" by (cases c)
  with Cons show ?case by (auto split: sum.splits)
qed

lemma loop_calls_mem:
  "c \<in> set (loop_calls fstr ps) \<Longrightarrow>
     \<exists>i<length ps. is_leaf_type (fst (ps ! i)) \<and> c = (str_py fstr (fst (ps ! i)), snd (ps ! i))"
proof (induction ps)
  case Nil
  then show ?case by simp
next
  case (Cons p ps)
  obtain t r where p: "p = (t, r)" by (cases p)
  show ?case
  proof (cases "c \<in> set (loop_calls fstr ps)")
    case True
    then obtain i where "i < length ps" "is_leaf_type (fst (ps ! i))"
      "c = (str_py fstr (fst (ps ! i)), snd (ps ! i))"
      using Cons.IH by blast
    then have "Suc i < length (p # ps) \<and> is_leaf_type (fst ((p # ps) ! Suc i)) \<and>
        c = (str_py fstr (fst ((p # ps) ! Suc i)), snd ((p # ps) ! Suc i))"
      by simp
    then show ?thesis by blast
  next
    case False
    with Cons.prems p have "is_leaf_type t \<and> c = (str_py fstr t, r)"
      by (simp split: if_splits)
    then have "0 < length (p # ps) \<and> is_leaf_type (fst ((p # ps) ! 0)) \<and>
        c = (str_py fstr (fst ((p # ps) ! 0)), snd ((p # ps) ! 0))"
      using p by simp
    then show ?thesis by blast
  qed
qed

lemma error_of_case:
  "error_of (case r of Inl e \<Rightarrow> Inl e | Inr x \<Rightarrow> Inr (f x)) = error_of r"
  by (cases r) simp_all

lemma error_of_None: "error_of r = None \<Longrightarrow> \<exists>x. r = Inr x"
  by (cases r) simp_all

lemma error_of_Some: "error_of r = Some e \<Longrightarrow> r = Inl e"
  by (cases r) simp_all

subsection \<open>The loop of anonymize\_list\<close>

lemma list_loop_error:
  "error_of (list_loop fstr an ps acc) = first_error an (loop_calls fstr ps)"
proof (induction ps arbitrary: acc)
  case Nil
  then show ?case by simp
next
  case (Cons p ps)
  obtain t r where p: "p = (t, r)" by (cases p)
  with Cons show ?case by (simp split: sum.splits)
qed

lemma list_loop_Inr_iff:
  "list_loop fstr an ps acc = Inr ys \<longleftrightarrow>
     (\<exists>zs. ys = acc @ zs \<and> list_all2 (\<lambda>p z. item_ok fstr an (fst p) (snd p) z) ps zs)"
proof (induction ps arbitrary: acc ys)
  case Nil
  then show ?case by auto
next
  case (Cons p ps)
  obtain t r where p: "p = (t, r)" by (cases p)
  show ?case
  proof (cases "is_leaf_type t")
    case True
    show ?thesis
    proof (cases "an (str_py fstr t) r")
      case (Inl e)
      with True p show ?thesis by (auto simp: item_ok_def list_all2_Cons1)
    next
      case (Inr s)
      with True p Cons.IH[of "acc @ [PStr s]" ys] show ?thesis
        by (auto simp: item_ok_def list_all2_Cons1)
    qed
  next
    case False
    with p Cons.IH[of "acc @ [t]" ys] show ?thesis
      by (auto simp: item_ok_def list_all2_Cons1)
  qed
qed

lemma anonymize_list_error:
  "error_of (anonymize_list fstr an texts (RList rs)) = first_error an (list_calls fstr texts (RList rs))"
  by (cases rs) (simp_all add: anonymize_list_def list_calls_def default_results_def list_loop_error)

lemma anonymize_list_RList:
  "anonymize_list fstr an texts (RList rs) =
     list_loop fstr an
       (zip texts (if rs = [] then replicate (length texts) (RList []) else rs)) []"
  by (cases rs) (simp_all add: anonymize_list_def default_results_def)

lemma list_loop_nth:
  assumes "list_loop fstr an ps [] = Inr ys"
  shows "length ys = length ps"
    and "i < length ps \<Longrightarrow> item_ok fstr an (fst (ps ! i)) (snd (ps ! i)) (ys ! i)"
proof -
  from assms have all2: "list_all2 (\<lambda>p z. item_ok fstr an (fst p) (snd p) z) ps ys"
    by (simp add: list_loop_Inr_iff)
  then show "length ys = length ps" by (simp add: list_all2_lengthD)
  assume "i < length ps"
  with all2 show "item_ok fstr an (fst (ps ! i)) (snd (ps ! i)) (ys ! i)"
    by (rule list_all2_nthD)
qed

lemma list_loop_returns:
  assumes "\<forall>i<length ps. is_leaf_type (fst (ps ! i)) \<longrightarrow>
             (\<exists>s. an (str_py fstr (fst (ps ! i))) (snd (ps ! i)) = Inr s)"
  shows "\<exists>ys. list_loop fstr an ps acc = Inr ys"
proof -
  have "first_error an (loop_calls fstr ps) = None"
    unfolding first_error_None_iff
  proof
    fix c assume "c \<in> set (loop_calls fstr ps)"
    then obtain i where "i < length ps" "is_leaf_type (fst (ps ! i))"
      "c = (str_py fstr (fst (ps ! i)), snd (ps ! i))"
      using loop_calls_mem by blast
    with assms show "\<exists>s. an (fst c) (snd c) = Inr s" by simp
  qed
  then have "error_of (list_loop fstr an ps acc) = None"
    by (simp add: list_loop_error)
  then show ?thesis by (rule error_of_None)
qed

text \<open>
  The loop on the zipped sequences: when no call raises, it returns one element per pair,
  each as \<open>item_ok\<close> says.
\<close>

lemma list_loop_zip:
  assumes "\<forall>i<min (length texts) (length rs). is_leaf_type (texts ! i) \<longrightarrow>
             (\<exists>s. an (str_py fstr (texts ! i)) (rs ! i) = Inr s)"
  shows "\<exists>ys. list_loop fstr an (zip texts rs) [] = Inr ys \<and>
           length ys = min (length texts) (length rs) \<and>
           (\<forall>i<length ys. item_ok fstr an (texts ! i) (rs ! i) (ys ! i))"
proof -
  let ?ps = "zip texts rs"
  have "\<forall>i<length ?ps. is_leaf_type (fst (?ps ! i)) \<longrightarrow>
          (\<exists>s. an (str_py fstr (fst (?ps ! i))) (snd (?ps ! i)) = Inr s)"
    using assms by simp
  then obtain ys where ys: "list_loop fstr an ?ps [] = Inr ys"
    using list_loop_returns by blast
  have l: "length ys = min (length texts) (length rs)"
    using list_loop_nth(1)[OF ys] by simp
  have "\<forall>i<length ys. item_ok fstr an (texts ! i) (rs ! i) (ys ! i)"
  proof (intro allI impI)
    fix i assume "i < length ys"
    with l have i: "i < length ?ps" by simp
    from list_loop_nth(2)[OF ys i] i show "item_ok fstr an (texts ! i) (rs ! i) (ys ! i)"
      by simp
  qed
  with ys l show ?thesis by blast
qed

subsection \<open>The loop of anonymize\_dict\<close>

lemma dict_set_fresh: "k \<notin> fst ` set d \<Longrightarrow> dict_set d k v = d @ [(k, v)]"
  by (induction d) auto

lemma dict_loop_Inr_nodes:
  "dict_loop fstr an nodes d0 = Inr d \<Longrightarrow> n \<in> set nodes \<Longrightarrow> is_DictAnalyzerResult n"
proof (induction nodes arbitrary: d0)
  case Nil
  then show ?case by simp
next
  case (Cons m nodes)
  show ?case
  proof (cases m)
    case (RecognizerResult sp)
    with Cons.prems show ?thesis by simp
  next
    case (RList rs)
    with Cons.prems show ?thesis by simp
  next
    case (DictAnalyzerResult k v rr)
    with Cons.prems obtain w where w: "anonymize_value fstr an v rr = Inr w"
      and rest: "dict_loop fstr an nodes (dict_set d0 k w) = Inr d"
      by (auto split: sum.splits)
    show ?thesis
    proof (cases "n = m")
      case True
      with DictAnalyzerResult show ?thesis by simp
    next
      case False
      with Cons.prems have "n \<in> set nodes" by simp
      with Cons.IH[OF rest] show ?thesis .
    qed
  qed
qed

lemma dict_loop_distinct:
  "dict_loop fstr an nodes d0 = Inr d \<Longrightarrow> distinct (map key nodes) \<Longrightarrow>
   set (map key nodes) \<inter> fst ` set d0 = {} \<Longrightarrow>
   \<exists>ws. length ws = length nodes \<and> d = d0 @ zip (map key nodes) ws \<and>
     (\<forall>i<length nodes.
        anonymize_value fstr an (val (nodes ! i)) (recognizer_results (nodes ! i)) = Inr (ws ! i))"
proof (induction nodes arbitrary: d0)
  case Nil
  then show ?case by simp
next
  case (Cons m nodes)
  have "is_DictAnalyzerResult m"
    using dict_loop_Inr_nodes[OF Cons.prems(1), of m] by simp
  then obtain k v rr where m: "m = DictAnalyzerResult k v rr"
    by (cases m) simp_all
  with Cons.prems(1) obtain w where w: "anonymize_value fstr an v rr = Inr w"
    and rest: "dict_loop fstr an nodes (dict_set d0 k w) = Inr d"
    by (auto split: sum.splits)
  from Cons.prems(3) m have fresh: "k \<notin> fst ` set d0" by auto
  then have ds: "dict_set d0 k w = d0 @ [(k, w)]" by (rule dict_set_fresh)
  from Cons.prems(2) m have dist: "distinct (map key nodes)" and knot: "k \<notin> set (map key nodes)"
    by simp_all
  from Cons.prems(3) knot have disj: "set (map key nodes) \<inter> fst ` set (d0 @ [(k, w)]) = {}"
    by auto
  from Cons.IH[OF rest[unfolded ds] dist disj]
  obtain ws where ws: "length ws = length nodes" "d = (d0 @ [(k, w)]) @ zip (map key nodes) ws"
    "\<forall>i<length nodes.
        anonymize_value fstr an (val (nodes ! i)) (recognizer_results (nodes ! i)) = Inr (ws ! i)"
    by blast
  have "length (w # ws) = length (m # nodes)" using ws(1) by simp
  moreover have "d = d0 @ zip (map key (m # nodes)) (w # ws)" using ws(2) m by simp
  moreover have "\<forall>i<length (m # nodes).
        anonymize_value fstr an (val ((m # nodes) ! i)) (recognizer_results ((m # nodes) ! i))
          = Inr ((w # ws) ! i)"
  proof (intro allI impI)
    fix i assume "i < length (m # nodes)"
    then show "anonymize_value fstr an (val ((m # nodes) ! i))
        (recognizer_results ((m # nodes) ! i)) = Inr ((w # ws) ! i)"
      using ws(3) w m by (cases i) simp_all
  qed
  ultimately show ?case by blast
qed

lemma dict_first_error:
  "shape_ok obj \<longrightarrow>
     error_of (anonymize_dict fstr an obj) = first_error an (dict_calls fstr obj)"
  "shape_ok_nodes nodes \<longrightarrow>
     error_of (dict_loop fstr an nodes d0) = first_error an (nodes_calls fstr nodes)"
  "shape_ok_value v rr \<longrightarrow>
     error_of (anonymize_value fstr an v rr) = first_error an (value_calls fstr v rr)"
proof (induction fstr an obj and fstr an nodes d0 and fstr an v rr
    rule: anonymize_dict_dict_loop_anonymize_value.induct)
  case (1 fstr anonymize results)
  then show ?case by simp
next
  case (2 fstr anonymize sp)
  then show ?case by simp
next
  case (3 fstr anonymize k v rr)
  then show ?case by simp
next
  case (4 fstr anonymize return_dict)
  then show ?case by simp
next
  case (5 fstr anonymize k v rr rest return_dict)
  show ?case
  proof
    assume ok: "shape_ok_nodes (DictAnalyzerResult k v rr # rest)"
    then have okv: "shape_ok_value v rr" and okr: "shape_ok_nodes rest" by simp_all
    from "5.IH"(1) okv
    have v: "error_of (anonymize_value fstr anonymize v rr) =
        first_error anonymize (value_calls fstr v rr)" by simp
    show "error_of (dict_loop fstr anonymize (DictAnalyzerResult k v rr # rest) return_dict) =
        first_error anonymize (nodes_calls fstr (DictAnalyzerResult k v rr # rest))"
    proof (cases "anonymize_value fstr anonymize v rr")
      case (Inl e)
      with v have "first_error anonymize (value_calls fstr v rr) = Some e" by simp
      with Inl show ?thesis by (simp add: first_error_append)
    next
      case (Inr w)
      from "5.IH"(2)[OF Inr] okr
      have "error_of (dict_loop fstr anonymize rest (dict_set return_dict k w)) =
          first_error anonymize (nodes_calls fstr rest)" by simp
      moreover from Inr v have "first_error anonymize (value_calls fstr v rr) = None" by simp
      ultimately show ?thesis using Inr by (simp add: first_error_append)
    qed
  qed
next
  case (6 fstr anonymize sp rest return_dict)
  then show ?case by simp
next
  case (7 fstr anonymize rs rest return_dict)
  then show ?case by simp
next
  case (8 fstr anonymize v rr)
  show ?case
  proof
    assume ok: "shape_ok_value v rr"
    show "error_of (anonymize_value fstr anonymize v rr) =
        first_error anonymize (value_calls fstr v rr)"
    proof (cases "is_dict v")
      case True
      with ok have "shape_ok rr" by (simp add: shape_ok_value.simps)
      with "8.IH" True
      have "error_of (anonymize_dict fstr anonymize rr) = first_error anonymize (dict_calls fstr rr)"
        by simp
      with True show ?thesis
        by (simp add: anonymize_value.simps value_calls.simps error_of_case)
    next
      case False
      show ?thesis
      proof (cases "is_str v")
        case True
        with False show ?thesis
          by (cases "anonymize (str_of v) rr")
            (simp_all add: anonymize_value.simps value_calls.simps)
      next
        case nstr: False
        show ?thesis
        proof (cases "is_iterable v")
          case True
          with ok False nstr obtain rs where rs: "rr = RList rs"
            by (cases rr) (simp_all add: shape_ok_value.simps)
          have "error_of (anonymize_list fstr anonymize (iter_py v) rr) =
              first_error anonymize (list_calls fstr (iter_py v) rr)"
            unfolding rs by (rule anonymize_list_error)
          with True False nstr show ?thesis
            by (simp add: anonymize_value.simps value_calls.simps error_of_case)
        next
          case niter: False
          with False nstr show ?thesis
            by (simp add: anonymize_value.simps value_calls.simps)
        qed
      qed
    qed
  qed
qed

lemma map_of_dict_set: "map_of (dict_set d k v) = (map_of d)(k \<mapsto> v)"
  by (induction d) (auto simp: fun_eq_iff)

lemma dict_loop_append:
  "dict_loop fstr an (pre @ rest) d0 = Inr d \<Longrightarrow>
     \<exists>d1. dict_loop fstr an pre d0 = Inr d1 \<and> dict_loop fstr an rest d1 = Inr d"
proof (induction pre arbitrary: d0)
  case Nil
  then show ?case by simp
next
  case (Cons m pre)
  show ?case
  proof (cases m)
    case (RecognizerResult sp)
    with Cons.prems show ?thesis by simp
  next
    case (RList rs)
    with Cons.prems show ?thesis by simp
  next
    case (DictAnalyzerResult k v rr)
    with Cons.prems obtain w where w: "anonymize_value fstr an v rr = Inr w"
      and rest: "dict_loop fstr an (pre @ rest) (dict_set d0 k w) = Inr d"
      by (auto split: sum.splits)
    from Cons.IH[OF rest] DictAnalyzerResult w show ?thesis by simp
  qed
qed

lemma dict_loop_other_keys:
  "dict_loop fstr an nodes d0 = Inr d \<Longrightarrow> k \<notin> key ` set nodes \<Longrightarrow>
     map_of d k = map_of d0 k"
proof (induction nodes arbitrary: d0)
  case Nil
  then show ?case by simp
next
  case (Cons m nodes)
  show ?case
  proof (cases m)
    case (RecognizerResult sp)
    with Cons.prems show ?thesis by simp
  next
    case (RList rs)
    with Cons.prems show ?thesis by simp
  next
    case (DictAnalyzerResult k' v rr)
    with Cons.prems obtain w where w: "anonymize_value fstr an v rr = Inr w"
      and rest: "dict_loop fstr an nodes (dict_set d0 k' w) = Inr d"
      by (auto split: sum.splits)
    from Cons.prems(2) DictAnalyzerResult have ne: "k \<noteq> k'" and notin: "k \<notin> key ` set nodes"
      by auto
    from Cons.IH[OF rest notin] ne show ?thesis by (simp add: map_of_dict_set)
  qed
qed

text \<open>The entry of a node whose key no later node has.\<close>

lemma anonymize_dict_entry:
  assumes "anonymize_dict fstr an (RList (pre @ n # post)) = Inr d"
    and "key n \<notin> key ` set post"
  shows "\<exists>w. anonymize_value fstr an (val n) (recognizer_results n) = Inr w \<and>
             map_of d (key n) = Some w"
proof -
  from assms(1) have "dict_loop fstr an (pre @ n # post) [] = Inr d" by simp
  from dict_loop_append[OF this] obtain d1 where
    d1: "dict_loop fstr an (n # post) d1 = Inr d" by blast
  then have "is_DictAnalyzerResult n"
    using dict_loop_Inr_nodes[of fstr an "n # post" d1 d n] by simp
  then obtain k v rr where n: "n = DictAnalyzerResult k v rr" by (cases n) simp_all
  with d1 obtain w where w: "anonymize_value fstr an v rr = Inr w"
    and rest: "dict_loop fstr an post (dict_set d1 k w) = Inr d"
    by (auto split: sum.splits)
  from assms(2) n have "k \<notin> key ` set post" by simp
  from dict_loop_other_keys[OF rest this] have "map_of d k = Some w"
    by (simp add: map_of_dict_set)
  with w n show ?thesis by simp
qed

subsection \<open>Errors of the single-text anonymizer\<close>

lemma first_error_split:
  assumes "\<forall>c\<in>set pre. \<exists>s. an (fst c) (snd c) = Inr s" and "an t r = Inl e"
  shows "first_error an (pre @ (t, r) # post) = Some e"
proof -
  from assms(1) have "first_error an pre = None" by (simp add: first_error_None_iff)
  with assms(2) show ?thesis by (simp add: first_error_append)
qed

lemma anonymize_list_error_any:
  "first_error an (list_calls fstr texts rrl) = Some e \<Longrightarrow>
     anonymize_list fstr an texts rrl = Inl e"
proof (cases rrl)
  case (RList rs)
  assume "first_error an (list_calls fstr texts rrl) = Some e"
  with RList have "error_of (anonymize_list fstr an texts (RList rs)) = Some e"
    by (simp add: anonymize_list_error)
  with RList show ?thesis by (simp add: error_of_Some)
qed (simp_all add: list_calls_def default_results_def)

section \<open>The claims about anonymize\_list\<close>

text \<open>
  In the witnesses and counterexamples the float type is \<open>unit\<close> and the single-text
  anonymizer is a small stand-in for the library's, given as a \<open>\<lambda>\<close>-term.
\<close>

text \<open>
  C1 says that a non-empty sequence of span collections whose length differs from that of
  the values makes \<open>anonymize_list\<close> fail with an invalid-argument error. The method has
  no length check: \<open>zip\<close> stops at the shorter sequence. Here three texts meet two span
  collections, and the call returns the first two texts.
\<close>

theorem anonymize_list_mismatch_counterexample:
  "[RList [], RList []] \<noteq> ([] :: unit robj list) \<and>
   length [RList [], RList [] :: unit robj] \<noteq> length [PStr ''Morris'', PStr ''Mike'', PStr ''Mary'' :: unit pyval] \<and>
   anonymize_list (\<lambda>x::unit. ''0.0'') (\<lambda>t r. Inr t)
     [PStr ''Morris'', PStr ''Mike'', PStr ''Mary''] (RList [RList [], RList []])
   = Inr [PStr ''Morris'', PStr ''Mike'']"
  by (simp add: anonymize_list_def default_results_def)

text \<open>
  C1, as the code has it: with a non-empty sequence of span collections of a different
  length, \<open>anonymize_list\<close> does not fail on account of the lengths. It returns a result,
  or it ends with an error that the single-text anonymizer raised on one of the first
  \<open>min m n\<close> values.
\<close>

theorem anonymize_list_mismatch_only_external_errors:
  assumes "rs \<noteq> []" and "length rs \<noteq> length texts"
  shows "(\<exists>ys. anonymize_list fstr an texts (RList rs) = Inr ys) \<or>
         (\<exists>e i. i < min (length texts) (length rs) \<and> is_leaf_type (texts ! i) \<and>
            an (str_py fstr (texts ! i)) (rs ! i) = Inl e \<and>
            anonymize_list fstr an texts (RList rs) = Inl e)"
proof (cases "error_of (anonymize_list fstr an texts (RList rs))")
  case None
  then show ?thesis using error_of_None by blast
next
  case (Some e)
  then have res: "anonymize_list fstr an texts (RList rs) = Inl e" by (rule error_of_Some)
  from Some assms(1) have "first_error an (loop_calls fstr (zip texts rs)) = Some e"
    by (simp add: anonymize_list_RList list_loop_error)
  then obtain c where c: "c \<in> set (loop_calls fstr (zip texts rs))" "an (fst c) (snd c) = Inl e"
    using first_error_Some_mem by blast
  from loop_calls_mem[OF c(1)] obtain i where i: "i < length (zip texts rs)"
    "is_leaf_type (fst (zip texts rs ! i))"
    "c = (str_py fstr (fst (zip texts rs ! i)), snd (zip texts rs ! i))"
    by blast
  from i c(2) have "i < min (length texts) (length rs) \<and> is_leaf_type (texts ! i) \<and>
      an (str_py fstr (texts ! i)) (rs ! i) = Inl e"
    by simp
  with res show ?thesis by blast
qed

theorem anonymize_list_mismatch_only_external_errors_witness:
  "[RList [RecognizerResult \<lparr>entity_type = ''PERSON'', start = 0, end_pos = 6, score = ()\<rparr>]]
     \<noteq> ([] :: unit robj list) \<and>
   length [RList [RecognizerResult
       \<lparr>entity_type = ''PERSON'', start = 0, end_pos = 6, score = ()\<rparr>] :: unit robj]
     \<noteq> length [PStr ''Morris likes this'', PStr ''Mary'' :: unit pyval] \<and>
   anonymize_list (\<lambda>x::unit. ''0.0'')
     (\<lambda>t r. if r = RList [] then Inr t else Inr ''<PERSON>'')
     [PStr ''Morris likes this'', PStr ''Mary'']
     (RList [RList [RecognizerResult
         \<lparr>entity_type = ''PERSON'', start = 0, end_pos = 6, score = ()\<rparr>]])
   = Inr [PStr ''<PERSON>'']"
  using anonymize_list_mismatch_only_external_errors
    [of "[RList [RecognizerResult
           \<lparr>entity_type = ''PERSON'', start = 0, end_pos = 6, score = ()\<rparr>]]"
        "[PStr ''Morris likes this'', PStr ''Mary'' :: unit pyval]"
        "\<lambda>x::unit. ''0.0''" "\<lambda>t r. if r = RList [] then Inr t else Inr ''<PERSON>''"]
  by (simp add: anonymize_list_def default_results_def)

text \<open>
  C3: when the sequence of span collections is empty or as long as the sequence of values,
  and the single-text anonymizer raises on none of the values of a leaf type,
  \<open>anonymize_list\<close> returns a sequence as long as the values, and the element at each
  position comes from the value at that position: the anonymized text of \<open>str(value)\<close> for
  a value of a leaf type, the value itself otherwise. (An empty sequence of span
  collections gives every value the empty collection.)
\<close>

theorem anonymize_list_same_length:
  assumes "rs = [] \<or> length rs = length texts"
    and "\<forall>i<length texts. is_leaf_type (texts ! i) \<longrightarrow>
           (\<exists>s. an (str_py fstr (texts ! i)) (if rs = [] then RList [] else rs ! i) = Inr s)"
  shows "\<exists>ys. anonymize_list fstr an texts (RList rs) = Inr ys \<and>
           length ys = length texts \<and>
           (\<forall>i<length texts.
              item_ok fstr an (texts ! i) (if rs = [] then RList [] else rs ! i) (ys ! i))"
proof -
  let ?rs = "if rs = [] then replicate (length texts) (RList []) else rs"
  have len: "length ?rs = length texts" using assms(1) by auto
  have at: "?rs ! i = (if rs = [] then RList [] else rs ! i)" if "i < length texts" for i
    using that by simp
  have "\<forall>i<min (length texts) (length ?rs). is_leaf_type (texts ! i) \<longrightarrow>
          (\<exists>s. an (str_py fstr (texts ! i)) (?rs ! i) = Inr s)"
    using assms(2) len at by simp
  from list_loop_zip[OF this] obtain ys where
    ys: "list_loop fstr an (zip texts ?rs) [] = Inr ys"
    and l: "length ys = min (length texts) (length ?rs)"
    and it: "\<forall>i<length ys. item_ok fstr an (texts ! i) (?rs ! i) (ys ! i)"
    by blast
  from l len have l': "length ys = length texts" by simp
  from it l' at have "\<forall>i<length texts.
      item_ok fstr an (texts ! i) (if rs = [] then RList [] else rs ! i) (ys ! i)"
    by simp
  with ys l' show ?thesis by (simp add: anonymize_list_RList)
qed

theorem anonymize_list_same_length_witness:
  "length [RList [RecognizerResult \<lparr>entity_type = ''PERSON'', start = 0, end_pos = 6, score = ()\<rparr>],
           RList [], RList []]
     = length [PStr ''Morris likes this'', PNone, PInt 12 :: unit pyval] \<and>
   anonymize_list (\<lambda>x::unit. ''0.0'')
     (\<lambda>t r. if r = RList [] then Inr t else Inr ''<PERSON>'')
     [PStr ''Morris likes this'', PNone, PInt 12]
     (RList [RList [RecognizerResult
         \<lparr>entity_type = ''PERSON'', start = 0, end_pos = 6, score = ()\<rparr>],
       RList [], RList []])
   = Inr [PStr ''<PERSON>'', PNone, PStr ''12'']"
proof -
  let ?fstr = "\<lambda>x::unit. ''0.0''"
  let ?an = "\<lambda>(t::string) (r::unit robj).
      if r = RList [] then Inr t else (Inr ''<PERSON>'' :: error + string)"
  let ?texts = "[PStr ''Morris likes this'', PNone, PInt 12 :: unit pyval]"
  let ?rs = "[RList [RecognizerResult
      \<lparr>entity_type = ''PERSON'', start = 0, end_pos = 6, score = ()\<rparr>],
    RList [], RList [] :: unit robj]"
  have h1: "?rs = [] \<or> length ?rs = length ?texts" by simp
  have h2: "\<forall>i<length ?texts. is_leaf_type (?texts ! i) \<longrightarrow>
      (\<exists>s. ?an (str_py ?fstr (?texts ! i)) (if ?rs = [] then RList [] else ?rs ! i) = Inr s)"
    by simp
  from anonymize_list_same_length[OF h1 h2]
  show ?thesis
    by (simp add: anonymize_list_def default_results_def str_int_def str_nat.simps
        digit_char_def)
qed

text \<open>
  C7: when the sequence of span collections is empty, or every span collection in it is
  empty, and the single-text anonymizer returns a text unchanged when it is given an empty
  span collection, then \<open>anonymize_list\<close> returns, and every string among the values it
  went through is in the output at its position, unchanged.
\<close>

theorem anonymize_list_no_detections:
  assumes "\<forall>t. an t (RList []) = Inr t"
    and "rs = [] \<or> (\<forall>r\<in>set rs. r = RList [])"
  shows "\<exists>ys. anonymize_list fstr an texts (RList rs) = Inr ys \<and>
           length ys = (if rs = [] then length texts else min (length texts) (length rs)) \<and>
           (\<forall>i<length ys. \<forall>s. texts ! i = PStr s \<longrightarrow> ys ! i = PStr s)"
proof -
  let ?rs = "if rs = [] then replicate (length texts) (RList []) else rs"
  have at: "?rs ! i = RList []" if "i < min (length texts) (length ?rs)" for i
    using that assms(2) by (auto simp: all_set_conv_all_nth)
  have "\<forall>i<min (length texts) (length ?rs). is_leaf_type (texts ! i) \<longrightarrow>
          (\<exists>s. an (str_py fstr (texts ! i)) (?rs ! i) = Inr s)"
    using assms(1) at by simp
  from list_loop_zip[OF this] obtain ys where
    ys: "list_loop fstr an (zip texts ?rs) [] = Inr ys"
    and l: "length ys = min (length texts) (length ?rs)"
    and it: "\<forall>i<length ys. item_ok fstr an (texts ! i) (?rs ! i) (ys ! i)"
    by blast
  have l': "length ys = (if rs = [] then length texts else min (length texts) (length rs))"
    using l by simp
  have "\<forall>i<length ys. \<forall>s. texts ! i = PStr s \<longrightarrow> ys ! i = PStr s"
  proof (intro allI impI)
    fix i s assume i: "i < length ys" and s: "texts ! i = PStr s"
    from it i have "item_ok fstr an (texts ! i) (?rs ! i) (ys ! i)" by blast
    moreover from i l have "?rs ! i = RList []" using at by simp
    ultimately show "ys ! i = PStr s" using s assms(1) by (simp add: item_ok_def)
  qed
  with ys l' show ?thesis by (simp add: anonymize_list_RList)
qed

theorem anonymize_list_no_detections_witness:
  "anonymize_list (\<lambda>x::unit. ''0.0'')
     (\<lambda>t r. if r = RList [] then Inr t else Inl (AnonymizerError ''bad span''))
     [PStr ''Mary had a little startup'', PStr ''3''] (RList [RList [], RList []])
   = Inr [PStr ''Mary had a little startup'', PStr ''3'']"
proof -
  let ?fstr = "\<lambda>x::unit. ''0.0''"
  let ?an = "\<lambda>(t::string) (r::unit robj).
      if r = RList [] then Inr t else (Inl (AnonymizerError ''bad span'') :: error + string)"
  have h: "\<forall>t. ?an t (RList []) = Inr t" by simp
  have e: "[RList [], RList [] :: unit robj] = [] \<or>
      (\<forall>r\<in>set [RList [], RList [] :: unit robj]. r = RList [])" by simp
  from anonymize_list_no_detections[of ?an "[RList [], RList []]" ?fstr
      "[PStr ''Mary had a little startup'', PStr ''3'']", OF h e]
  show ?thesis by (simp add: anonymize_list_def default_results_def)
qed

text \<open>
  C9: with a non-empty sequence of span collections whose length differs from that of the
  values, and a single-text anonymizer that raises on none of the values it is called on,
  \<open>anonymize_list\<close> returns normally a sequence whose length is the smaller of the two
  lengths: the elements of the longer input beyond that are dropped, and the element at
  each position comes from the value and the span collection at that position.
\<close>

theorem anonymize_list_truncates:
  assumes "rs \<noteq> []" and "length rs \<noteq> length texts"
    and "\<forall>i<min (length texts) (length rs). is_leaf_type (texts ! i) \<longrightarrow>
           (\<exists>s. an (str_py fstr (texts ! i)) (rs ! i) = Inr s)"
  shows "\<exists>ys. anonymize_list fstr an texts (RList rs) = Inr ys \<and>
           length ys = min (length texts) (length rs) \<and>
           (\<forall>i<length ys. item_ok fstr an (texts ! i) (rs ! i) (ys ! i))"
  using list_loop_zip[OF assms(3)] assms(1) by (simp add: anonymize_list_RList)

theorem anonymize_list_truncates_witness:
  "[RList [], RList []] \<noteq> ([] :: unit robj list) \<and>
   length [RList [], RList [] :: unit robj]
     \<noteq> length [PStr ''a'', PBool True, PStr ''c'' :: unit pyval] \<and>
   anonymize_list (\<lambda>x::unit. ''0.0'') (\<lambda>t r. Inr t) [PStr ''a'', PBool True, PStr ''c'']
     (RList [RList [], RList []]) = Inr [PStr ''a'', PStr ''True'']"
proof -
  let ?fstr = "\<lambda>x::unit. ''0.0''"
  let ?an = "\<lambda>(t::string) (r::unit robj). (Inr t :: error + string)"
  let ?texts = "[PStr ''a'', PBool True, PStr ''c'' :: unit pyval]"
  let ?rs = "[RList [], RList [] :: unit robj]"
  have n: "?rs \<noteq> []" by simp
  have l: "length ?rs \<noteq> length ?texts" by simp
  have a: "\<forall>i<min (length ?texts) (length ?rs). is_leaf_type (?texts ! i) \<longrightarrow>
      (\<exists>s. ?an (str_py ?fstr (?texts ! i)) (?rs ! i) = Inr s)"
    by simp
  from anonymize_list_truncates[OF n l a]
  show ?thesis by (simp add: anonymize_list_def default_results_def)
qed

section \<open>The claims about anonymize\_dict\<close>

text \<open>
  C4: for analyzer results of the analyzer's shape whose nodes have pairwise distinct
  keys, and a single-text anonymizer that raises on none of the calls of the traversal,
  \<open>anonymize_dict\<close> returns a dict whose keys are the keys of the nodes, in the order of
  the nodes (so its key set is the set of the nodes' keys). Each key is bound to the
  transform of its node's value: for a dict, the dict that \<open>anonymize_dict\<close> returns on the
  node's \<open>recognizer_results\<close>; for a string, the text that the single-text anonymizer
  returns for the string and the node's \<open>recognizer_results\<close>; for a list or a set, the
  list that \<open>anonymize_list\<close> returns on its elements; for any other value, the value
  itself.
\<close>

theorem anonymize_dict_keys_in_order:
  assumes "shape_ok (RList nodes)"
    and "distinct (map key nodes)"
    and "\<forall>c\<in>set (dict_calls fstr (RList nodes)). \<exists>s. an (fst c) (snd c) = Inr s"
  shows "\<exists>d. anonymize_dict fstr an (RList nodes) = Inr d \<and>
           map fst d = map key nodes \<and>
           (\<forall>i<length nodes.
              (is_dict (val (nodes ! i)) \<longrightarrow>
                 (\<exists>resp. anonymize_dict fstr an (recognizer_results (nodes ! i)) = Inr resp \<and>
                    snd (d ! i) = PDict resp)) \<and>
              (is_str (val (nodes ! i)) \<longrightarrow>
                 (\<exists>resp_text.
                    an (str_of (val (nodes ! i))) (recognizer_results (nodes ! i)) = Inr resp_text \<and>
                    snd (d ! i) = PStr resp_text)) \<and>
              (is_iterable (val (nodes ! i)) \<and> \<not> is_dict (val (nodes ! i)) \<and>
               \<not> is_str (val (nodes ! i)) \<longrightarrow>
                 (\<exists>ys. anonymize_list fstr an (iter_py (val (nodes ! i)))
                         (recognizer_results (nodes ! i)) = Inr ys \<and>
                    snd (d ! i) = PList ys)) \<and>
              (\<not> is_iterable (val (nodes ! i)) \<longrightarrow> snd (d ! i) = val (nodes ! i)))"
proof -
  from assms(3) have "first_error an (dict_calls fstr (RList nodes)) = None"
    by (simp only: first_error_None_iff)
  with assms(1) dict_first_error(1)[of "RList nodes" fstr an]
  have "error_of (anonymize_dict fstr an (RList nodes)) = None" by simp
  then obtain d where res: "anonymize_dict fstr an (RList nodes) = Inr d"
    using error_of_None by blast
  then have loop: "dict_loop fstr an nodes [] = Inr d" by simp
  from dict_loop_distinct[OF loop assms(2)] obtain ws where
    ws: "length ws = length nodes" "d = zip (map key nodes) ws"
      "\<forall>i<length nodes.
        anonymize_value fstr an (val (nodes ! i)) (recognizer_results (nodes ! i)) = Inr (ws ! i)"
    by auto
  from ws(1,2) have keys: "map fst d = map key nodes" by simp
  have "(is_dict (val (nodes ! i)) \<longrightarrow>
           (\<exists>resp. anonymize_dict fstr an (recognizer_results (nodes ! i)) = Inr resp \<and>
              snd (d ! i) = PDict resp)) \<and>
        (is_str (val (nodes ! i)) \<longrightarrow>
           (\<exists>resp_text.
              an (str_of (val (nodes ! i))) (recognizer_results (nodes ! i)) = Inr resp_text \<and>
              snd (d ! i) = PStr resp_text)) \<and>
        (is_iterable (val (nodes ! i)) \<and> \<not> is_dict (val (nodes ! i)) \<and>
         \<not> is_str (val (nodes ! i)) \<longrightarrow>
           (\<exists>ys. anonymize_list fstr an (iter_py (val (nodes ! i)))
                   (recognizer_results (nodes ! i)) = Inr ys \<and>
              snd (d ! i) = PList ys)) \<and>
        (\<not> is_iterable (val (nodes ! i)) \<longrightarrow> snd (d ! i) = val (nodes ! i))"
    if i: "i < length nodes" for i
  proof -
    let ?v = "val (nodes ! i)" and ?rr = "recognizer_results (nodes ! i)"
    from ws i have w: "anonymize_value fstr an ?v ?rr = Inr (snd (d ! i))" by simp
    have nd: "\<not> is_dict ?v" if "is_str ?v" using that by (cases ?v) simp_all
    have ni: "\<not> is_dict ?v \<and> \<not> is_str ?v" if "\<not> is_iterable ?v"
      using that by (cases ?v) simp_all
    have c1: "\<exists>resp. anonymize_dict fstr an ?rr = Inr resp \<and> snd (d ! i) = PDict resp"
      if "is_dict ?v"
      using w that by (auto simp: anonymize_value.simps split: sum.splits)
    have c2: "\<exists>resp_text. an (str_of ?v) ?rr = Inr resp_text \<and> snd (d ! i) = PStr resp_text"
      if "is_str ?v"
      using w that nd by (auto simp: anonymize_value.simps split: sum.splits)
    have c3: "\<exists>ys. anonymize_list fstr an (iter_py ?v) ?rr = Inr ys \<and> snd (d ! i) = PList ys"
      if "is_iterable ?v \<and> \<not> is_dict ?v \<and> \<not> is_str ?v"
      using w that by (auto simp: anonymize_value.simps split: sum.splits)
    have c4: "snd (d ! i) = ?v" if "\<not> is_iterable ?v"
      using w that ni by (simp add: anonymize_value.simps)
    from c1 c2 c3 c4 show ?thesis by blast
  qed
  with res keys show ?thesis by blast
qed

theorem anonymize_dict_keys_in_order_witness:
  "shape_ok (RList [DictAnalyzerResult ''name'' (PStr ''Morris likes this'')
        (RList [RecognizerResult
          \<lparr>entity_type = ''PERSON'', start = 0, end_pos = 6, score = ()\<rparr>]),
      DictAnalyzerResult ''key_a'' (PDict [(''key_a1'', PStr ''call 212-121-1424'')])
        (RList [DictAnalyzerResult ''key_a1'' (PStr ''call 212-121-1424'')
          (RList [RecognizerResult
            \<lparr>entity_type = ''PHONE_NUMBER'', start = 5, end_pos = 17, score = ()\<rparr>])]),
      DictAnalyzerResult ''key_b'' (PSet [PStr ''www.abc.com''])
        (RList [RList [RecognizerResult
          \<lparr>entity_type = ''URL'', start = 0, end_pos = 11, score = ()\<rparr>]]),
      DictAnalyzerResult ''key_c'' (PInt 3) (RList []) :: unit robj]) \<and>
   distinct (map key [DictAnalyzerResult ''name'' (PStr ''Morris likes this'')
        (RList [RecognizerResult
          \<lparr>entity_type = ''PERSON'', start = 0, end_pos = 6, score = ()\<rparr>]),
      DictAnalyzerResult ''key_a'' (PDict [(''key_a1'', PStr ''call 212-121-1424'')])
        (RList [DictAnalyzerResult ''key_a1'' (PStr ''call 212-121-1424'')
          (RList [RecognizerResult
            \<lparr>entity_type = ''PHONE_NUMBER'', start = 5, end_pos = 17, score = ()\<rparr>])]),
      DictAnalyzerResult ''key_b'' (PSet [PStr ''www.abc.com''])
        (RList [RList [RecognizerResult
          \<lparr>entity_type = ''URL'', start = 0, end_pos = 11, score = ()\<rparr>]]),
      DictAnalyzerResult ''key_c'' (PInt 3) (RList []) :: unit robj]) \<and>
   anonymize_dict (\<lambda>x::unit. ''0.0'')
     (\<lambda>t r. if r = RList [] then Inr t else Inr (''<'' @ t @ ''>''))
     (RList [DictAnalyzerResult ''name'' (PStr ''Morris likes this'')
        (RList [RecognizerResult
          \<lparr>entity_type = ''PERSON'', start = 0, end_pos = 6, score = ()\<rparr>]),
      DictAnalyzerResult ''key_a'' (PDict [(''key_a1'', PStr ''call 212-121-1424'')])
        (RList [DictAnalyzerResult ''key_a1'' (PStr ''call 212-121-1424'')
          (RList [RecognizerResult
            \<lparr>entity_type = ''PHONE_NUMBER'', start = 5, end_pos = 17, score = ()\<rparr>])]),
      DictAnalyzerResult ''key_b'' (PSet [PStr ''www.abc.com''])
        (RList [RList [RecognizerResult
          \<lparr>entity_type = ''URL'', start = 0, end_pos = 11, score = ()\<rparr>]]),
      DictAnalyzerResult ''key_c'' (PInt 3) (RList [])])
   = Inr [(''name'', PStr ''<Morris likes this>''),
          (''key_a'', PDict [(''key_a1'', PStr ''<call 212-121-1424>'')]),
          (''key_b'', PList [PStr ''<www.abc.com>'']),
          (''key_c'', PInt 3)]"
proof -
  let ?fstr = "\<lambda>x::unit. ''0.0''"
  let ?an = "\<lambda>(t::string) (r::unit robj).
      if r = RList [] then Inr t else (Inr (''<'' @ t @ ''>'') :: error + string)"
  let ?nodes = "[DictAnalyzerResult ''name'' (PStr ''Morris likes this'')
        (RList [RecognizerResult
          \<lparr>entity_type = ''PERSON'', start = 0, end_pos = 6, score = ()\<rparr>]),
      DictAnalyzerResult ''key_a'' (PDict [(''key_a1'', PStr ''call 212-121-1424'')])
        (RList [DictAnalyzerResult ''key_a1'' (PStr ''call 212-121-1424'')
          (RList [RecognizerResult
            \<lparr>entity_type = ''PHONE_NUMBER'', start = 5, end_pos = 17, score = ()\<rparr>])]),
      DictAnalyzerResult ''key_b'' (PSet [PStr ''www.abc.com''])
        (RList [RList [RecognizerResult
          \<lparr>entity_type = ''URL'', start = 0, end_pos = 11, score = ()\<rparr>]]),
      DictAnalyzerResult ''key_c'' (PInt 3) (RList []) :: unit robj]"
  have a: "shape_ok (RList ?nodes)" by (simp add: shape_ok_value.simps)
  have b: "distinct (map key ?nodes)" by simp
  have c: "\<forall>c\<in>set (dict_calls ?fstr (RList ?nodes)). \<exists>s. ?an (fst c) (snd c) = Inr s"
    by (simp add: value_calls.simps list_calls_def default_results_def)
  from anonymize_dict_keys_in_order[OF a b c] a b
  show ?thesis
    by (simp add: anonymize_value.simps anonymize_list_def default_results_def)
qed

text \<open>
  C5: when \<open>anonymize_dict\<close> returns, a node whose value is a dict (and whose key no later
  node has) is bound in the output to a dict, namely to what \<open>anonymize_dict\<close> itself
  returns on the node's \<open>recognizer_results\<close>: the nesting is kept.
\<close>

theorem anonymize_dict_nested_mapping:
  assumes "anonymize_dict fstr an (RList (pre @ n # post)) = Inr d"
    and "key n \<notin> key ` set post"
    and "is_dict (val n)"
  shows "\<exists>resp. anonymize_dict fstr an (recognizer_results n) = Inr resp \<and>
           map_of d (key n) = Some (PDict resp)"
proof -
  from anonymize_dict_entry[OF assms(1,2)] obtain w where
    w: "anonymize_value fstr an (val n) (recognizer_results n) = Inr w"
    and m: "map_of d (key n) = Some w" by blast
  from w assms(3) obtain resp where
    "anonymize_dict fstr an (recognizer_results n) = Inr resp" "w = PDict resp"
    by (auto simp: anonymize_value.simps split: sum.splits)
  with m show ?thesis by simp
qed

theorem anonymize_dict_nested_mapping_witness:
  "key (DictAnalyzerResult ''key_a'' (PDict [(''key_a1'', PStr ''My phone number is 212-121-1424'')])
      (RList [DictAnalyzerResult ''key_a1'' (PStr ''My phone number is 212-121-1424'')
        (RList [RecognizerResult
          \<lparr>entity_type = ''PHONE_NUMBER'', start = 19, end_pos = 31, score = ()\<rparr>])]))
     \<notin> key ` set [DictAnalyzerResult ''key_c'' (PInt 3) (RList [])] \<and>
   is_dict (PDict [(''key_a1'', PStr ''My phone number is 212-121-1424'')] :: unit pyval) \<and>
   anonymize_dict (\<lambda>x::unit. ''0.0'')
     (\<lambda>t r. if r = RList [] then Inr t else Inr ''My phone number is <PHONE_NUMBER>'')
     (RList [DictAnalyzerResult ''key_a''
        (PDict [(''key_a1'', PStr ''My phone number is 212-121-1424'')])
        (RList [DictAnalyzerResult ''key_a1'' (PStr ''My phone number is 212-121-1424'')
          (RList [RecognizerResult
            \<lparr>entity_type = ''PHONE_NUMBER'', start = 19, end_pos = 31, score = ()\<rparr>])]),
       DictAnalyzerResult ''key_c'' (PInt 3) (RList [])])
   = Inr [(''key_a'', PDict [(''key_a1'', PStr ''My phone number is <PHONE_NUMBER>'')]),
          (''key_c'', PInt 3)]"
proof -
  let ?fstr = "\<lambda>x::unit. ''0.0''"
  let ?an = "\<lambda>(t::string) (r::unit robj). if r = RList [] then Inr t
      else (Inr ''My phone number is <PHONE_NUMBER>'' :: error + string)"
  let ?n = "DictAnalyzerResult ''key_a''
        (PDict [(''key_a1'', PStr ''My phone number is 212-121-1424'')])
        (RList [DictAnalyzerResult ''key_a1'' (PStr ''My phone number is 212-121-1424'')
          (RList [RecognizerResult
            \<lparr>entity_type = ''PHONE_NUMBER'', start = 19, end_pos = 31, score = ()\<rparr>])])
      :: unit robj"
  let ?post = "[DictAnalyzerResult ''key_c'' (PInt 3) (RList []) :: unit robj]"
  let ?d = "[(''key_a'', PDict [(''key_a1'', PStr ''My phone number is <PHONE_NUMBER>'')]),
          (''key_c'', PInt 3 :: unit pyval)]"
  have run: "anonymize_dict ?fstr ?an (RList ([] @ ?n # ?post)) = Inr ?d"
    by (simp add: anonymize_value.simps)
  have k: "key ?n \<notin> key ` set ?post" by simp
  have v: "is_dict (val ?n)" by simp
  from anonymize_dict_nested_mapping[OF run k v] run
  show ?thesis by simp
qed


text \<open>
  C6: the loop body tests for a dict first, then for a string, then for an iterable. A
  dict and a string are iterable too, but when \<open>anonymize_dict\<close> returns, a node with a
  dict value is bound to the dict of the recursive call, and a node with a string value
  is bound to the text that the single-text anonymizer returns for the whole string,
  never to a list of its characters.
\<close>

theorem anonymize_dict_dispatch_order:
  assumes "anonymize_dict fstr an (RList (pre @ n # post)) = Inr d"
    and "key n \<notin> key ` set post"
  shows "(is_dict (val n) \<longrightarrow> is_iterable (val n) \<and>
            (\<exists>resp. anonymize_dict fstr an (recognizer_results n) = Inr resp \<and>
               map_of d (key n) = Some (PDict resp))) \<and>
         (is_str (val n) \<longrightarrow> is_iterable (val n) \<and>
            (\<exists>resp_text. an (str_of (val n)) (recognizer_results n) = Inr resp_text \<and>
               map_of d (key n) = Some (PStr resp_text)) \<and>
            (\<forall>ys. map_of d (key n) \<noteq> Some (PList ys)))"
proof -
  from anonymize_dict_entry[OF assms] obtain w where
    w: "anonymize_value fstr an (val n) (recognizer_results n) = Inr w"
    and m: "map_of d (key n) = Some w" by blast
  have "is_iterable (val n) \<and>
      (\<exists>resp. anonymize_dict fstr an (recognizer_results n) = Inr resp \<and>
         map_of d (key n) = Some (PDict resp))" if "is_dict (val n)"
  proof -
    from that have "is_iterable (val n)" by (cases "val n") simp_all
    moreover from w that obtain resp where
      "anonymize_dict fstr an (recognizer_results n) = Inr resp" "w = PDict resp"
      by (auto simp: anonymize_value.simps split: sum.splits)
    ultimately show ?thesis using m by simp
  qed
  moreover have "is_iterable (val n) \<and>
      (\<exists>resp_text. an (str_of (val n)) (recognizer_results n) = Inr resp_text \<and>
         map_of d (key n) = Some (PStr resp_text)) \<and>
      (\<forall>ys. map_of d (key n) \<noteq> Some (PList ys))" if "is_str (val n)"
  proof -
    from that have it: "is_iterable (val n)" and nd: "\<not> is_dict (val n)"
      by (cases "val n"; simp)+
    from w that nd obtain resp_text where
      "an (str_of (val n)) (recognizer_results n) = Inr resp_text" "w = PStr resp_text"
      by (auto simp: anonymize_value.simps split: sum.splits)
    with it m show ?thesis by simp
  qed
  ultimately show ?thesis by blast
qed

theorem anonymize_dict_dispatch_order_witness:
  "key (DictAnalyzerResult ''s'' (PStr ''abc'') (RList []) :: unit robj)
     \<notin> key ` set [DictAnalyzerResult ''m'' (PDict [(''k'', PStr ''de'')])
         (RList [DictAnalyzerResult ''k'' (PStr ''de'') (RList [])]) :: unit robj] \<and>
   key (DictAnalyzerResult ''m'' (PDict [(''k'', PStr ''de'')])
         (RList [DictAnalyzerResult ''k'' (PStr ''de'') (RList [])]) :: unit robj)
     \<notin> key ` set ([] :: unit robj list) \<and>
   is_str (PStr ''abc'' :: unit pyval) \<and> is_dict (PDict [(''k'', PStr ''de'')] :: unit pyval) \<and>
   anonymize_dict (\<lambda>x::unit. ''0.0'') (\<lambda>t r. Inr (''<'' @ t @ ''>''))
     (RList [DictAnalyzerResult ''s'' (PStr ''abc'') (RList []),
             DictAnalyzerResult ''m'' (PDict [(''k'', PStr ''de'')])
               (RList [DictAnalyzerResult ''k'' (PStr ''de'') (RList [])])])
   = Inr [(''s'', PStr ''<abc>''), (''m'', PDict [(''k'', PStr ''<de>'')])]"
proof -
  let ?fstr = "\<lambda>x::unit. ''0.0''"
  let ?an = "\<lambda>(t::string) (r::unit robj). (Inr (''<'' @ t @ ''>'') :: error + string)"
  let ?s = "DictAnalyzerResult ''s'' (PStr ''abc'') (RList []) :: unit robj"
  let ?m = "DictAnalyzerResult ''m'' (PDict [(''k'', PStr ''de'')])
      (RList [DictAnalyzerResult ''k'' (PStr ''de'') (RList [])]) :: unit robj"
  let ?d = "[(''s'', PStr ''<abc>''), (''m'', PDict [(''k'', PStr ''<de>'')])]
      :: (string \<times> unit pyval) list"
  have run1: "anonymize_dict ?fstr ?an (RList ([] @ ?s # [?m])) = Inr ?d"
    by (simp add: anonymize_value.simps)
  have run2: "anonymize_dict ?fstr ?an (RList ([?s] @ ?m # [])) = Inr ?d"
    by (simp add: anonymize_value.simps)
  have k1: "key ?s \<notin> key ` set [?m]" by simp
  have k2: "key ?m \<notin> key ` set []" by simp
  from anonymize_dict_dispatch_order[OF run1 k1] anonymize_dict_dispatch_order[OF run2 k2] run1
  show ?thesis by simp
qed

text \<open>
  C10: when \<open>anonymize_dict\<close> returns, a node whose value is iterable and neither a dict
  nor a string (a list or a set) is bound in the output to a list, the one that
  \<open>anonymize_list\<close> returns on the elements of the value; a set comes out as a list.
\<close>

theorem anonymize_dict_iterable_gives_list:
  assumes "anonymize_dict fstr an (RList (pre @ n # post)) = Inr d"
    and "key n \<notin> key ` set post"
    and "is_iterable (val n)" and "\<not> is_dict (val n)" and "\<not> is_str (val n)"
  shows "\<exists>ys. anonymize_list fstr an (iter_py (val n)) (recognizer_results n) = Inr ys \<and>
           map_of d (key n) = Some (PList ys)"
proof -
  from anonymize_dict_entry[OF assms(1,2)] obtain w where
    w: "anonymize_value fstr an (val n) (recognizer_results n) = Inr w"
    and m: "map_of d (key n) = Some w" by blast
  from w assms(3,4,5) obtain ys where
    "anonymize_list fstr an (iter_py (val n)) (recognizer_results n) = Inr ys" "w = PList ys"
    by (auto simp: anonymize_value.simps split: sum.splits)
  with m show ?thesis by simp
qed

theorem anonymize_dict_iterable_gives_list_witness:
  "key (DictAnalyzerResult ''key_b'' (PSet [PStr ''www.abc.com''])
        (RList [RList [RecognizerResult
          \<lparr>entity_type = ''URL'', start = 0, end_pos = 11, score = ()\<rparr>]]) :: unit robj)
     \<notin> key ` set [DictAnalyzerResult ''key_c'' (PInt 3) (RList []) :: unit robj] \<and>
   is_iterable (PSet [PStr ''www.abc.com''] :: unit pyval) \<and>
   \<not> is_dict (PSet [PStr ''www.abc.com''] :: unit pyval) \<and>
   \<not> is_str (PSet [PStr ''www.abc.com''] :: unit pyval) \<and>
   anonymize_dict (\<lambda>x::unit. ''0.0'') (\<lambda>t r. if r = RList [] then Inr t else Inr ''<URL>'')
     (RList [DictAnalyzerResult ''key_b'' (PSet [PStr ''www.abc.com''])
        (RList [RList [RecognizerResult
          \<lparr>entity_type = ''URL'', start = 0, end_pos = 11, score = ()\<rparr>]]),
       DictAnalyzerResult ''key_c'' (PInt 3) (RList [])])
   = Inr [(''key_b'', PList [PStr ''<URL>'']), (''key_c'', PInt 3)]"
proof -
  let ?fstr = "\<lambda>x::unit. ''0.0''"
  let ?an = "\<lambda>(t::string) (r::unit robj).
      if r = RList [] then Inr t else (Inr ''<URL>'' :: error + string)"
  let ?n = "DictAnalyzerResult ''key_b'' (PSet [PStr ''www.abc.com''])
        (RList [RList [RecognizerResult
          \<lparr>entity_type = ''URL'', start = 0, end_pos = 11, score = ()\<rparr>]]) :: unit robj"
  let ?post = "[DictAnalyzerResult ''key_c'' (PInt 3) (RList []) :: unit robj]"
  let ?d = "[(''key_b'', PList [PStr ''<URL>'']), (''key_c'', PInt 3)]
      :: (string \<times> unit pyval) list"
  have run: "anonymize_dict ?fstr ?an (RList ([] @ ?n # ?post)) = Inr ?d"
    by (simp add: anonymize_value.simps anonymize_list_def default_results_def)
  have k: "key ?n \<notin> key ` set ?post" by simp
  have i: "is_iterable (val ?n)" and nd: "\<not> is_dict (val ?n)" and ns: "\<not> is_str (val ?n)"
    by simp_all
  from anonymize_dict_iterable_gives_list[OF run k i nd ns] run
  show ?thesis by simp
qed

section \<open>The claims about both methods\<close>

text \<open>
  C2 says that a boolean, integer or float leaf comes out of \<open>anonymize_list\<close> and
  \<open>anonymize_dict\<close> with the same value and type. In \<open>anonymize_list\<close> the test
  \<open>type(text) in (str, bool, int, float)\<close> sends such a leaf through \<open>str\<close> and the
  single-text anonymizer, and the text is what is appended: the integer \<open>1\<close> and the
  boolean \<open>True\<close> come out as the strings \<open>''1''\<close> and \<open>''True''\<close>.
\<close>

theorem anonymize_list_passthrough_counterexample:
  "is_leaf_type (PInt 1 :: unit pyval) \<and> \<not> is_str (PInt 1 :: unit pyval) \<and>
   anonymize_list (\<lambda>x::unit. ''0.0'') (\<lambda>t r. Inr t) [PInt 1, PBool True]
     (RList [RList [], RList []])
   = Inr [PStr ''1'', PStr ''True''] \<and>
   PStr ''1'' \<noteq> (PInt 1 :: unit pyval) \<and> PStr ''True'' \<noteq> (PBool True :: unit pyval)"
  by (simp add: anonymize_list_def default_results_def str_int_def str_nat.simps digit_char_def)

text \<open>
  C2, as the code has it: in the output of \<open>anonymize_list\<close>, the position of a boolean,
  integer or float leaf holds a string, the text that the single-text anonymizer returns
  for \<open>str\<close> of the leaf; in the output of \<open>anonymize_dict\<close>, a node whose value is itself a
  boolean, an integer or a float (and whose key no later node has) is bound to that very
  value.
\<close>

theorem non_string_leaves:
  "(anonymize_list fstr an texts (RList rs) = Inr ys \<and> i < length ys \<and>
      is_leaf_type (texts ! i) \<and> \<not> is_str (texts ! i) \<longrightarrow>
      (\<exists>s. an (str_py fstr (texts ! i)) (if rs = [] then RList [] else rs ! i) = Inr s \<and>
         ys ! i = PStr s)) \<and>
   (anonymize_dict fstr an (RList (pre @ n # post)) = Inr d \<and> key n \<notin> key ` set post \<and>
      is_leaf_type (val n) \<and> \<not> is_str (val n) \<longrightarrow>
      map_of d (key n) = Some (val n))"
proof (intro conjI impI)
  assume a: "anonymize_list fstr an texts (RList rs) = Inr ys \<and> i < length ys \<and>
      is_leaf_type (texts ! i) \<and> \<not> is_str (texts ! i)"
  let ?rs = "if rs = [] then replicate (length texts) (RList []) else rs"
  from a have loop: "list_loop fstr an (zip texts ?rs) [] = Inr ys"
    by (simp add: anonymize_list_RList)
  from list_loop_nth(1)[OF loop] a have i: "i < length (zip texts ?rs)" by simp
  then have at: "zip texts ?rs ! i = (texts ! i, if rs = [] then RList [] else rs ! i)"
    by auto
  from list_loop_nth(2)[OF loop i] at
  have "item_ok fstr an (texts ! i) (if rs = [] then RList [] else rs ! i) (ys ! i)"
    by simp
  with a show "\<exists>s. an (str_py fstr (texts ! i)) (if rs = [] then RList [] else rs ! i) = Inr s \<and>
      ys ! i = PStr s"
    by (simp add: item_ok_def)
next
  assume b: "anonymize_dict fstr an (RList (pre @ n # post)) = Inr d \<and>
      key n \<notin> key ` set post \<and> is_leaf_type (val n) \<and> \<not> is_str (val n)"
  then obtain w where
    w: "anonymize_value fstr an (val n) (recognizer_results n) = Inr w"
    and m: "map_of d (key n) = Some w"
    using anonymize_dict_entry by blast
  from b have "\<not> is_dict (val n)" "\<not> is_str (val n)" "\<not> is_iterable (val n)"
    by (cases "val n"; simp)+
  with w have "w = val n" by (simp add: anonymize_value.simps)
  with m show "map_of d (key n) = Some (val n)" by simp
qed

theorem non_string_leaves_witness:
  "anonymize_list (\<lambda>x::unit. ''0.0'') (\<lambda>t r. Inr t) [PInt 2, PBool False] (RList [])
     = Inr [PStr ''2'', PStr ''False''] \<and>
   anonymize_dict (\<lambda>x::unit. ''0.0'') (\<lambda>t r. Inr t)
     (RList [DictAnalyzerResult ''key_c'' (PInt 3) (RList []),
             DictAnalyzerResult ''flag'' (PBool True) (RList [])])
     = Inr [(''key_c'', PInt 3), (''flag'', PBool True)]"
proof -
  let ?fstr = "\<lambda>x::unit. ''0.0''"
  let ?an = "\<lambda>(t::string) (r::unit robj). (Inr t :: error + string)"
  let ?n = "DictAnalyzerResult ''key_c'' (PInt 3) (RList []) :: unit robj"
  let ?post = "[DictAnalyzerResult ''flag'' (PBool True) (RList []) :: unit robj]"
  have l: "anonymize_list ?fstr ?an [PInt 2, PBool False] (RList [])
      = Inr [PStr ''2'', PStr ''False'']"
    by (simp add: anonymize_list_def default_results_def str_int_def str_nat.simps
        digit_char_def)
  have d: "anonymize_dict ?fstr ?an (RList ([] @ ?n # ?post))
      = Inr [(''key_c'', PInt 3), (''flag'', PBool True)]"
    by (simp add: anonymize_value.simps)
  from non_string_leaves[of ?fstr ?an "[PInt 2, PBool False]" "[]"
      "[PStr ''2'', PStr ''False'']" 0 "[]" ?n ?post
      "[(''key_c'', PInt 3), (''flag'', PBool True)]"] l d
  show ?thesis by simp
qed

text \<open>
  C8: when the single-text anonymizer raises on a call of the traversal, all calls before
  it having returned, then \<open>anonymize_list\<close>, and \<open>anonymize_dict\<close> on analyzer results of
  the analyzer's shape, end with that error: no list or dict is returned.
\<close>

theorem anonymizer_error_aborts:
  assumes "\<forall>c\<in>set pre. \<exists>s. an (fst c) (snd c) = Inr s" and "an t r = Inl e"
  shows "(list_calls fstr texts rrl = pre @ (t, r) # post \<longrightarrow>
            anonymize_list fstr an texts rrl = Inl e) \<and>
         (shape_ok obj \<and> dict_calls fstr obj = pre @ (t, r) # post' \<longrightarrow>
            anonymize_dict fstr an obj = Inl e)"
proof (intro conjI impI)
  assume "list_calls fstr texts rrl = pre @ (t, r) # post"
  then have "first_error an (list_calls fstr texts rrl) = Some e"
    using first_error_split[OF assms] by simp
  then show "anonymize_list fstr an texts rrl = Inl e" by (rule anonymize_list_error_any)
next
  assume a: "shape_ok obj \<and> dict_calls fstr obj = pre @ (t, r) # post'"
  then have "first_error an (dict_calls fstr obj) = Some e"
    using first_error_split[OF assms] by simp
  with a dict_first_error(1)[of obj fstr an]
  have "error_of (anonymize_dict fstr an obj) = Some e" by simp
  then show "anonymize_dict fstr an obj = Inl e" by (rule error_of_Some)
qed

theorem anonymizer_error_aborts_witness:
  "anonymize_list (\<lambda>x::unit. ''0.0'')
     (\<lambda>t r. if r = RList [] then Inr t else Inl (AnonymizerError ''Invalid analyzer result''))
     [PStr ''Morris'', PStr ''Mike'', PStr ''Mary'']
     (RList [RList [], RList [RecognizerResult
        \<lparr>entity_type = ''PERSON'', start = 19, end_pos = 23, score = ()\<rparr>], RList []])
   = Inl (AnonymizerError ''Invalid analyzer result'') \<and>
   anonymize_dict (\<lambda>x::unit. ''0.0'')
     (\<lambda>t r. if r = RList [] then Inr t else Inl (AnonymizerError ''Invalid analyzer result''))
     (RList [DictAnalyzerResult ''names'' (PList [PStr ''Morris''])  (RList [RList []]),
        DictAnalyzerResult ''key_a'' (PDict [(''key_a1'', PStr ''Mike'')])
          (RList [DictAnalyzerResult ''key_a1'' (PStr ''Mike'')
            (RList [RecognizerResult
              \<lparr>entity_type = ''PERSON'', start = 19, end_pos = 23, score = ()\<rparr>])]),
        DictAnalyzerResult ''key_c'' (PInt 3) (RList [])])
   = Inl (AnonymizerError ''Invalid analyzer result'')"
proof -
  let ?fstr = "\<lambda>x::unit. ''0.0''"
  let ?an = "\<lambda>(t::string) (r::unit robj). if r = RList [] then Inr t
      else (Inl (AnonymizerError ''Invalid analyzer result'') :: error + string)"
  let ?bad = "RList [RecognizerResult
      \<lparr>entity_type = ''PERSON'', start = 19, end_pos = 23, score = ()\<rparr>] :: unit robj"
  let ?texts = "[PStr ''Morris'', PStr ''Mike'', PStr ''Mary''] :: unit pyval list"
  let ?rrl = "RList [RList [], ?bad, RList []]"
  let ?obj = "RList [DictAnalyzerResult ''names'' (PList [PStr ''Morris'']) (RList [RList []]),
        DictAnalyzerResult ''key_a'' (PDict [(''key_a1'', PStr ''Mike'')])
          (RList [DictAnalyzerResult ''key_a1'' (PStr ''Mike'') ?bad]),
        DictAnalyzerResult ''key_c'' (PInt 3) (RList [])]"
  let ?pre = "[(''Morris'', RList [])] :: unit call list"
  have p: "\<forall>c\<in>set ?pre. \<exists>s. ?an (fst c) (snd c) = Inr s" by simp
  have f: "?an ''Mike'' ?bad = Inl (AnonymizerError ''Invalid analyzer result'')" by simp
  have c1: "list_calls ?fstr ?texts ?rrl = ?pre @ (''Mike'', ?bad) # [(''Mary'', RList [])]"
    by (simp add: list_calls_def default_results_def)
  have ok: "shape_ok ?obj" by (simp add: shape_ok_value.simps)
  have c2: "dict_calls ?fstr ?obj = ?pre @ (''Mike'', ?bad) # []"
    by (simp add: value_calls.simps list_calls_def default_results_def)
  from anonymizer_error_aborts[OF p f, of ?fstr ?texts ?rrl "[(''Mary'', RList [])]" ?obj "[]"]
    c1 c2 ok
  show ?thesis by simp
qed

end
